theory Spec2Isabelle
  imports Main
begin

section \<open>Values, promises and the data exchanged with the orchestrator\<close>

text \<open>
  JavaScript values, as far as \<open>runFn\<close> looks at them: it tests a value for
  \<open>undefined\<close>, replaces \<open>undefined\<close> by \<open>null\<close>, throws \<open>Error\<close> objects and
  passes everything else through untouched.
\<close>

datatype val =
    Undefined
  | Null
  | Bool bool
  | Num int
  | Str string
  | ErrorObj string string
  | Obj "(string \<times> val) list"

text \<open>
  The state of a promise: not settled, fulfilled with a value, or rejected with a
  thrown value. A \<open>Pending\<close> result of an awaited promise means that the await never
  returns.
\<close>

datatype 'a promise = Pending | Fulfilled 'a | Rejected val

text \<open>One record of the op stack (\<open>IncomingOp\<close>): \<open>run\<close> absent is \<open>False\<close>,
  \<open>data\<close> or \<open>error\<close> absent is \<open>Undefined\<close>.\<close>

record IncomingOp =
  opPosition :: "int list"
  run :: bool
  data :: val
  error :: val

text \<open>What a step tool is called with: the op code, id, name and options, and the
  thunk \<open>fn\<close> when the tool has code to run. A thunk is modelled by what
  \<open>new Promise((resolve) => resolve(fn()))\<close> settles to.\<close>

record Op =
  op :: string
  op_id :: string
  name :: string
  opts :: val
  fn :: "val promise option"

text \<open>A node of the op tree (\<open>TickOp\<close>): the op, its children \<open>tickOps\<close>, and the
  state of the promise that \<open>resolve\<close> and \<open>reject\<close> settle.\<close>

datatype TickOp = TickOp (info: Op) (tickOps: "TickOp list") (settled: "val promise")

record OutgoingOp =
  out_op :: string
  out_run :: bool
  out_id :: string
  out_name :: string
  out_opts :: val
  out_opPosition :: "int list"

text \<open>The object returned with \<open>"multi-run"\<close>: \<open>{ data }\<close> or \<open>{ error }\<close>; a key
  that is absent is \<open>None\<close>.\<close>

record MultiRunData =
  res_data :: "val option"
  res_error :: "val option"

datatype Outcome =
    Single val
  | MultiDiscovery "OutgoingOp list"
  | MultiRun MultiRunData

section \<open>The user function\<close>

text \<open>
  The user function \<open>this.#fn\<close> is an input of \<open>runFn\<close>. It is a process with a state
  of its own (\<open>'u\<close>, its closures and pending continuations) that \<open>runFn\<close> meets at three
  places:
  \<^item> \<open>call\<close>: the synchronous prefix of \<open>this.#fn(fnArg)\<close>, up to its first suspension:
    the step tools it calls, in call order;
  \<^item> \<open>awaited\<close>: what \<open>await userFnPromise\<close> yields when nothing else drives the function;
  \<^item> \<open>microtasks\<close>: the continuations that run while \<open>runFn\<close> awaits
    \<open>resolveNextTick()\<close>; they see which promises of the op tree are settled, and
    the step tools they call are returned in call order.
\<close>

record 'u UserFn =
  call :: "val \<Rightarrow> Op list \<times> 'u"
  awaited :: "'u \<Rightarrow> val promise"
  microtasks :: "TickOp list \<Rightarrow> 'u \<Rightarrow> Op list \<times> 'u"

section \<open>Run state and the op tree\<close>

text \<open>
  The run state of \<open>createStepTools\<close>. \<open>state.tickOps\<close> is a reference to an array that
  is shared with the op tree: either \<open>state.allFoundOps\<close> itself or the \<open>tickOps\<close> of a
  node. Every node owns its array, so the reference is modelled by the path of the node
  from the root (\<open>[]\<close> for \<open>allFoundOps\<close>) in \<open>tickOpsRef\<close>. \<open>ufn\<close> is the state of
  the user function.
\<close>

record 'u State =
  allFoundOps :: "TickOp list"
  tickOpsRef :: "int list"
  hasUsedTools :: bool
  userFnToRun :: "val promise option"
  pos :: int
  ufn :: 'u

text \<open>A JavaScript array read \<open>xs[i]\<close>: \<open>undefined\<close> (\<open>None\<close>) out of range.\<close>

definition elemAt :: "'a list \<Rightarrow> int \<Rightarrow> 'a option" where
  "elemAt xs i = (if 0 \<le> i \<and> i < int (length xs) then Some (xs ! nat i) else None)"

text \<open>The array a path refers to, if the path leads to a node.\<close>

fun arrayAt :: "TickOp list \<Rightarrow> int list \<Rightarrow> TickOp list option" where
  "arrayAt ops [] = Some ops"
| "arrayAt ops (i # p) =
     (case elemAt ops i of None \<Rightarrow> None | Some c \<Rightarrow> arrayAt (tickOps c) p)"

text \<open>A write to the node at a path, and a push onto the array at a path; a path that
  leads nowhere changes nothing.\<close>

fun updateAt :: "(TickOp \<Rightarrow> TickOp) \<Rightarrow> int list \<Rightarrow> TickOp list \<Rightarrow> TickOp list" where
  "updateAt f [] ops = ops"
| "updateAt f [i] ops =
     (case elemAt ops i of None \<Rightarrow> ops | Some c \<Rightarrow> ops[nat i := f c])"
| "updateAt f (i # j # p) ops =
     (case elemAt ops i of None \<Rightarrow> ops
      | Some c \<Rightarrow> ops[nat i := TickOp (info c) (updateAt f (j # p) (tickOps c)) (settled c)])"

fun pushAt :: "int list \<Rightarrow> TickOp list \<Rightarrow> TickOp list \<Rightarrow> TickOp list" where
  "pushAt [] new ops = ops @ new"
| "pushAt (i # p) new ops =
     (case elemAt ops i of None \<Rightarrow> ops
      | Some c \<Rightarrow> ops[nat i := TickOp (info c) (pushAt p new (tickOps c)) (settled c)])"

text \<open>
  Modelled from the spec: the \<open>resolve\<close> and \<open>reject\<close> of a node are made by
  \<open>createStepTools\<close>, which is not among the sources. They are those of the promise
  the step tool returned: they settle it when it is pending and do nothing otherwise.
\<close>

definition settle :: "val promise \<Rightarrow> TickOp \<Rightarrow> TickOp" where
  "settle r c = (case settled c of Pending \<Rightarrow> TickOp (info c) (tickOps c) r | _ \<Rightarrow> c)"

text \<open>
  Modelled from the spec: \<open>createStepTools\<close> (\<open>InngestStepTools\<close>) and
  \<open>resolveNextTick\<close> (\<open>helpers/promises\<close>) are not among the sources. The run state
  starts with an empty op tree whose root array is the active one, no tool used, no
  thunk selected and the cursor before the first record: the loop of \<open>runFn\<close> skips
  the records in its first pass by \<open>state.pos >= 0\<close>, and with an empty op stack it
  reports the discovered steps, which it can only do when the cursor starts below \<open>0\<close>.
  A step tool, when called, sets \<open>hasUsedTools\<close>
  and pushes a node with no children and a pending promise onto \<open>state.tickOps\<close>.
  \<open>resolveNextTick\<close> lets the continuations that are ready run once.
\<close>

definition createStepTools :: "'u \<Rightarrow> 'u State" where
  "createStepTools u =
     \<lparr>allFoundOps = [], tickOpsRef = [], hasUsedTools = False, userFnToRun = None,
      pos = - 1, ufn = u\<rparr>"

definition newTickOp :: "Op \<Rightarrow> TickOp" where
  "newTickOp o' = TickOp o' [] Pending"

definition useTools :: "Op list \<Rightarrow> 'u State \<Rightarrow> 'u State" where
  "useTools calls st =
     st\<lparr>allFoundOps := pushAt (tickOpsRef st) (map newTickOp calls) (allFoundOps st),
        hasUsedTools := (hasUsedTools st \<or> calls \<noteq> [])\<rparr>"

definition resolveNextTick :: "'u UserFn \<Rightarrow> 'u State \<Rightarrow> 'u State" where
  "resolveNextTick F st =
     (case microtasks F (allFoundOps st) (ufn st) of
        (calls, u) \<Rightarrow> useTools calls (st\<lparr>ufn := u\<rparr>))"

section \<open>runFn\<close>

definition typeError :: val where
  "typeError = ErrorObj ''TypeError'' ''Cannot read properties of undefined''"

definition noFnError :: val where
  "noFnError = ErrorObj ''Error'' ''Bad stack; no fn to execute; re-execute pls''"

definition fnChangedError :: val where
  "fnChangedError = ErrorObj ''Error'' ''Bad stack; fn might have changed; re-execute''"

text \<open>
  The \<open>for\<close> loop over \<open>incomingOp.opPosition\<close>: \<open>targetOps\<close> is the array being indexed,
  the third argument the indices still to visit. It returns \<open>currentOp\<close> and the state,
  or what it throws. Reading a property of an \<open>undefined\<close> \<open>currentOp\<close> throws a
  \<open>TypeError\<close>.
\<close>

fun forLoop :: "IncomingOp \<Rightarrow> TickOp list \<Rightarrow> int list \<Rightarrow> 'u State \<Rightarrow> val + (TickOp option \<times> 'u State)" where
  "forLoop incomingOp targetOps [] st = Inr (None, st)"
| "forLoop incomingOp targetOps [i] st =
     (case elemAt targetOps i of
        None \<Rightarrow> Inl typeError
      | Some currentOp \<Rightarrow>
          if run incomingOp then
            (case fn (info currentOp) of
               None \<Rightarrow> Inl noFnError
             | Some f \<Rightarrow> Inr (Some currentOp, st\<lparr>userFnToRun := Some f\<rparr>))
          else if data incomingOp \<noteq> Undefined then
            Inr (Some currentOp,
              st\<lparr>allFoundOps :=
                updateAt (settle (Fulfilled (data incomingOp))) (opPosition incomingOp) (allFoundOps st)\<rparr>)
          else
            Inr (Some currentOp,
              st\<lparr>allFoundOps :=
                updateAt (settle (Rejected (error incomingOp))) (opPosition incomingOp) (allFoundOps st)\<rparr>))"
| "forLoop incomingOp targetOps (i # j # p) st =
     (case elemAt targetOps i of
        None \<Rightarrow> Inl typeError
      | Some currentOp \<Rightarrow> forLoop incomingOp (tickOps currentOp) (j # p) st)"

text \<open>The body of \<open>if (state.pos >= 0) { ... }\<close>; the flag says that the loop is left
  by \<open>break\<close>.\<close>

definition processOp :: "IncomingOp \<Rightarrow> 'u State \<Rightarrow> val + (bool \<times> 'u State)" where
  "processOp incomingOp st =
     (case forLoop incomingOp (allFoundOps st) (opPosition incomingOp) st of
        Inl e \<Rightarrow> Inl e
      | Inr (currentOp, st1) \<Rightarrow>
          if userFnToRun st1 \<noteq> None then Inr (True, st1)
          else (case currentOp of
                  None \<Rightarrow> Inl fnChangedError
                | Some c \<Rightarrow> Inr (False, st1\<lparr>tickOpsRef := opPosition incomingOp\<rparr>)))"

definition loopBody :: "IncomingOp list \<Rightarrow> 'u State \<Rightarrow> val + (bool \<times> 'u State)" where
  "loopBody opStack st =
     (if pos st \<ge> 0 then
        (case elemAt opStack (pos st) of
           None \<Rightarrow> Inl typeError
         | Some incomingOp \<Rightarrow> processOp incomingOp st)
      else Inr (False, st))"

lemma forLoop_pos:
  "forLoop inc ops p st = Inr (c, st1) \<Longrightarrow> pos st1 = pos st"
  by (induction inc ops p st rule: forLoop.induct)
     (auto split: option.splits if_splits)

lemma processOp_pos:
  "processOp inc st = Inr (b, st1) \<Longrightarrow> pos st1 = pos st"
  unfolding processOp_def
  by (auto split: sum.splits if_splits option.splits prod.splits)
     (drule forLoop_pos, simp)+

lemma loopBody_pos:
  "loopBody opStack st = Inr (b, st1) \<Longrightarrow> pos st1 = pos st"
  by (auto simp: loopBody_def split: if_splits option.splits dest: processOp_pos)

lemma resolveNextTick_pos: "pos (resolveNextTick F st) = pos st"
  by (simp add: resolveNextTick_def useTools_def split: prod.splits)

text \<open>The \<open>do ... while (state.pos < opStack.length)\<close> loop.\<close>

function loop :: "'u UserFn \<Rightarrow> IncomingOp list \<Rightarrow> 'u State \<Rightarrow> val + 'u State" where
  "loop F opStack st =
     (case loopBody opStack st of
        Inl e \<Rightarrow> Inl e
      | Inr (brk, st1) \<Rightarrow>
          if brk then Inr st1
          else
            (let st2 = resolveNextTick F st1;
                 st3 = st2\<lparr>pos := pos st2 + 1\<rparr>
             in if pos st3 < int (length opStack) then loop F opStack st3 else Inr st3))"
  by pat_completeness auto
termination
proof (relation "measure (\<lambda>(F, opStack, st). nat (int (length opStack) - pos st))", goal_cases)
  case 1
  show ?case by simp
next
  case (2 F opStack st x2 brk st1 st2 st3)
  then have "pos st3 = pos st + 1"
    using loopBody_pos [of opStack st brk st1] by (simp add: resolveNextTick_pos)
  with 2 show ?case by simp
qed

declare loop.simps [simp del]

text \<open>The entry of the op stack the discovered positions start from:
  \<open>opStack[opStack.length - 1]?.opPosition ?? []\<close>.\<close>

definition lastOpPosition :: "IncomingOp list \<Rightarrow> int list" where
  "lastOpPosition opStack = (if opStack = [] then [] else opPosition (last opStack))"

definition discoveredOp :: "IncomingOp list \<Rightarrow> nat \<Rightarrow> TickOp \<Rightarrow> OutgoingOp" where
  "discoveredOp opStack index c =
     \<lparr>out_op = op (info c),
      out_run = (fn (info c) \<noteq> None),
      out_id = op_id (info c),
      out_name = name (info c),
      out_opts = opts (info c),
      out_opPosition = lastOpPosition opStack @ [int index]\<rparr>"

text \<open>The array \<open>state.tickOps\<close> refers to.\<close>

definition tickOpsOf :: "'u State \<Rightarrow> TickOp list" where
  "tickOpsOf st = (case arrayAt (allFoundOps st) (tickOpsRef st) of None \<Rightarrow> [] | Some xs \<Rightarrow> xs)"

definition discoveredOps :: "IncomingOp list \<Rightarrow> 'u State \<Rightarrow> OutgoingOp list" where
  "discoveredOps opStack st =
     map (\<lambda>(index, c). discoveredOp opStack index c) (enumerate 0 (tickOpsOf st))"

text \<open>
  Running the selected thunk. \<open>serializeError\<close> is the function of the package
  \<open>serialize-error-cjs\<close>, a parameter here: \<open>Inl\<close> is what it throws. The first
  component of the result is what was written with \<open>console.warn\<close>.
\<close>

definition serializationWarning :: string where
  "serializationWarning = ''Could not serialize error to return to Inngest; stringifying instead''"

definition runUserFn ::
  "(val \<Rightarrow> val + val) \<Rightarrow> val promise \<Rightarrow> (string \<times> val) list \<times> Outcome promise" where
  "runUserFn serializeError userFn =
     (case userFn of
        Pending \<Rightarrow> ([], Pending)
      | Fulfilled d \<Rightarrow>
          ([], Fulfilled (MultiRun
             \<lparr>res_data = Some (if d = Undefined then Null else d), res_error = None\<rparr>))
      | Rejected err \<Rightarrow>
          (case serializeError err of
             Inr s \<Rightarrow> ([], Fulfilled (MultiRun \<lparr>res_data = None, res_error = Some s\<rparr>))
           | Inl serializationErr \<Rightarrow>
               ([(serializationWarning, serializationErr)],
                Fulfilled (MultiRun \<lparr>res_data = None, res_error = Some err\<rparr>))))"

text \<open>The state when the user function has been started: the tools it called
  synchronously are in the tree.\<close>

definition startFn :: "'u UserFn \<Rightarrow> val \<Rightarrow> 'u State" where
  "startFn F d = (case call F d of (calls, u) \<Rightarrow> useTools calls (createStepTools u))"

definition runFn ::
  "'u UserFn \<Rightarrow> (val \<Rightarrow> val + val) \<Rightarrow> val \<Rightarrow> IncomingOp list \<Rightarrow>
     (string \<times> val) list \<times> Outcome promise" where
  "runFn F serializeError d opStack =
     (let state = startFn F d in
      if \<not> hasUsedTools state then
        ([], case awaited F (ufn state) of
               Pending \<Rightarrow> Pending
             | Fulfilled v \<Rightarrow> Fulfilled (Single v)
             | Rejected e \<Rightarrow> Rejected e)
      else
        (case loop F opStack state of
           Inl e \<Rightarrow> ([], Rejected e)
         | Inr st \<Rightarrow>
             (case userFnToRun st of
                Some userFn \<Rightarrow> runUserFn serializeError userFn
              | None \<Rightarrow> ([], Fulfilled (MultiDiscovery (discoveredOps opStack st))))))"

section \<open>The loop as a replay of the records\<close>

text \<open>The node a position path leads to; the empty path leads to no node.\<close>

fun nodeAt :: "TickOp list \<Rightarrow> int list \<Rightarrow> TickOp option" where
  "nodeAt ops [] = None"
| "nodeAt ops [i] = elemAt ops i"
| "nodeAt ops (i # j # p) =
     (case elemAt ops i of None \<Rightarrow> None | Some c \<Rightarrow> nodeAt (tickOps c) (j # p))"

text \<open>The end of one pass of the loop: \<open>await resolveNextTick(); state.pos++\<close>.\<close>

definition nextTick :: "'u UserFn \<Rightarrow> 'u State \<Rightarrow> 'u State" where
  "nextTick F st = (let st2 = resolveNextTick F st in st2\<lparr>pos := pos st2 + 1\<rparr>)"

text \<open>The passes of the loop over the records that are left, by recursion on them;
  \<open>loop_start\<close> below shows that the loop computes this.\<close>

fun replay :: "'u UserFn \<Rightarrow> 'u State \<Rightarrow> IncomingOp list \<Rightarrow> val + 'u State" where
  "replay F st [] = Inr st"
| "replay F st (r # rs) =
     (case processOp r st of
        Inl e \<Rightarrow> Inl e
      | Inr (brk, st1) \<Rightarrow> if brk then Inr st1 else replay F (nextTick F st1) rs)"

text \<open>A state is well visited by a set of position paths when only nodes at these
  paths have a settled promise or children, and \<open>state.tickOps\<close> is the root array or
  the array of a node at one of these paths.\<close>

definition wellVisited :: "int list set \<Rightarrow> 'u State \<Rightarrow> bool" where
  "wellVisited P st \<longleftrightarrow>
     (\<forall>q c. nodeAt (allFoundOps st) q = Some c \<longrightarrow>
        settled c \<noteq> Pending \<or> tickOps c \<noteq> [] \<longrightarrow> q \<in> P) \<and>
     (tickOpsRef st = [] \<or> tickOpsRef st \<in> P) \<and>
     arrayAt (allFoundOps st) (tickOpsRef st) \<noteq> None"

text \<open>The \<open>message\<close> property of a value.\<close>

definition message :: "val \<Rightarrow> val" where
  "message v =
     (case v of
        ErrorObj n m \<Rightarrow> Str m
      | Obj kvs \<Rightarrow> (case map_of kvs ''message'' of None \<Rightarrow> Undefined | Some x \<Rightarrow> x)
      | _ \<Rightarrow> Undefined)"

section \<open>Example inputs\<close>

text \<open>Records of an op stack: run the step at a path now, a step that returned a value,
  a step that threw.\<close>

definition runAt :: "int list \<Rightarrow> IncomingOp" where
  "runAt p = \<lparr>opPosition = p, run = True, data = Undefined, error = Undefined\<rparr>"

definition dataAt :: "int list \<Rightarrow> val \<Rightarrow> IncomingOp" where
  "dataAt p v = \<lparr>opPosition = p, run = False, data = v, error = Undefined\<rparr>"

definition errorAt :: "int list \<Rightarrow> val \<Rightarrow> IncomingOp" where
  "errorAt p e = \<lparr>opPosition = p, run = False, data = Undefined, error = e\<rparr>"

text \<open>Steps: \<open>run("a", () => 1)\<close>, \<open>run("b", () => { throw new Error("boom") })\<close>,
  \<open>run("v", () => undefined)\<close>, and a tool without code to run.\<close>

definition opA :: Op where
  "opA = \<lparr>op = ''Step'', op_id = ''a'', name = ''a'', opts = Null,
          fn = Some (Fulfilled (Num 1))\<rparr>"

definition opB :: Op where
  "opB = \<lparr>op = ''Step'', op_id = ''b'', name = ''b'', opts = Null,
          fn = Some (Rejected (ErrorObj ''Error'' ''boom''))\<rparr>"

definition opV :: Op where
  "opV = \<lparr>op = ''Step'', op_id = ''v'', name = ''v'', opts = Null,
          fn = Some (Fulfilled Undefined)\<rparr>"

definition opW :: Op where
  "opW = \<lparr>op = ''WaitForEvent'', op_id = ''w'', name = ''w'', opts = Null, fn = None\<rparr>"

text \<open>\<open>({ tools }) => tools.run("a", () => 1).then(() => tools.run("b", ...))\<close>: step
  \<open>a\<close> is called synchronously, step \<open>b\<close> in the continuation of \<open>a\<close>, once \<open>a\<close>
  is fulfilled. The state says whether the continuation has run.\<close>

definition chainFn :: "bool UserFn" where
  "chainFn =
     \<lparr>call = (\<lambda>d. ([opA], False)),
      awaited = (\<lambda>u. Pending),
      microtasks = (\<lambda>tree u.
        if u then ([], u)
        else (case tree of
                [] \<Rightarrow> ([], u)
              | c # cs \<Rightarrow> (case settled c of Fulfilled v \<Rightarrow> ([opB], True) | _ \<Rightarrow> ([], u))))\<rparr>"

text \<open>\<open>(x) => x + 1\<close> on numbers; no step tool.\<close>

definition plainFn :: "val UserFn" where
  "plainFn =
     \<lparr>call = (\<lambda>d. ([], d)),
      awaited = (\<lambda>u. case u of Num x \<Rightarrow> Fulfilled (Num (x + 1)) | _ \<Rightarrow> Fulfilled Undefined),
      microtasks = (\<lambda>tree u. ([], u))\<rparr>"

text \<open>\<open>() => { throw new Error("boom") }\<close>; no step tool.\<close>

definition throwFn :: "unit UserFn" where
  "throwFn =
     \<lparr>call = (\<lambda>d. ([], ())),
      awaited = (\<lambda>u. Rejected (ErrorObj ''Error'' ''boom'')),
      microtasks = (\<lambda>tree u. ([], u))\<rparr>"

text \<open>\<open>async ({ tools }) => { await null; tools.run("a", () => 1); return 7 }\<close>: the
  step tool is called after the first suspension only.\<close>

definition lateFn :: "bool UserFn" where
  "lateFn =
     \<lparr>call = (\<lambda>d. ([], False)),
      awaited = (\<lambda>u. Fulfilled (Num 7)),
      microtasks = (\<lambda>tree u. if u then ([], u) else ([opA], True))\<rparr>"

text \<open>Functions that call one tool, or two, synchronously and wait.\<close>

definition voidFn :: "unit UserFn" where
  "voidFn =
     \<lparr>call = (\<lambda>d. ([opV], ())),
      awaited = (\<lambda>u. Pending),
      microtasks = (\<lambda>tree u. ([], u))\<rparr>"

definition waitFn :: "unit UserFn" where
  "waitFn =
     \<lparr>call = (\<lambda>d. ([opW, opB], ())),
      awaited = (\<lambda>u. Pending),
      microtasks = (\<lambda>tree u. ([], u))\<rparr>"

text \<open>A serializer that keeps the name and the message of an error, and one that
  throws.\<close>

definition exampleSerializer :: "val \<Rightarrow> val + val" where
  "exampleSerializer e =
     (case e of
        ErrorObj n m \<Rightarrow> Inr (Obj [(''name'', Str n), (''message'', Str m)])
      | v \<Rightarrow> Inr v)"

definition failingSerializer :: "val \<Rightarrow> val + val" where
  "failingSerializer e = Inl (ErrorObj ''TypeError'' ''cannot serialize'')"

text \<open>States that the loop reaches on the examples.\<close>

definition chainState0 :: "bool State" where
  "chainState0 =
     \<lparr>allFoundOps = [TickOp opA [] Pending], tickOpsRef = [], hasUsedTools = True,
      userFnToRun = None, pos = 0, ufn = False\<rparr>"

definition chainState1 :: "bool State" where
  "chainState1 =
     \<lparr>allFoundOps = [TickOp opA [TickOp opB [] Pending] (Fulfilled (Num 1))],
      tickOpsRef = [0], hasUsedTools = True, userFnToRun = None, pos = 1, ufn = True\<rparr>"

definition voidState0 :: "unit State" where
  "voidState0 =
     \<lparr>allFoundOps = [TickOp opV [] Pending], tickOpsRef = [], hasUsedTools = True,
      userFnToRun = None, pos = 0, ufn = ()\<rparr>"

definition waitState0 :: "unit State" where
  "waitState0 =
     \<lparr>allFoundOps = [TickOp opW [] Pending, TickOp opB [] Pending], tickOpsRef = [],
      hasUsedTools = True, userFnToRun = None, pos = 0, ufn = ()\<rparr>"

section \<open>Facts about the loop\<close>

lemma nextTick_pos: "pos (nextTick F st) = pos st + 1"
  by (simp add: nextTick_def Let_def resolveNextTick_pos)

lemma loop_replay:
  "0 \<le> pos st \<Longrightarrow> pos st < int (length opStack) \<Longrightarrow>
   loop F opStack st = replay F st (drop (nat (pos st)) opStack)"
proof (induction F opStack st rule: loop.induct)
  case (1 F opStack st)
  let ?k = "nat (pos st)"
  from "1.prems" have k: "?k < length opStack" by simp
  then obtain r where dr: "drop ?k opStack = r # drop (Suc ?k) opStack" and r: "r = opStack ! ?k"
    by (simp add: Cons_nth_drop_Suc)
  from "1.prems" have body: "loopBody opStack st = processOp r st"
    by (simp add: loopBody_def elemAt_def r)
  show ?case
  proof (cases "processOp r st")
    case (Inl e)
    then show ?thesis by (simp add: loop.simps [of F opStack st] body dr)
  next
    case (Inr bs)
    obtain brk st1 where bs: "bs = (brk, st1)" by (cases bs)
    have p1: "pos st1 = pos st" using Inr bs processOp_pos by blast
    show ?thesis
    proof (cases brk)
      case True
      then show ?thesis by (simp add: loop.simps [of F opStack st] body dr Inr bs)
    next
      case False
      let ?st3 = "nextTick F st1"
      have p3: "pos ?st3 = pos st + 1" by (simp add: nextTick_pos p1)
      have nk: "nat (pos st + 1) = Suc ?k" using "1.prems" by simp
      show ?thesis
      proof (cases "pos ?st3 < int (length opStack)")
        case True
        have "loop F opStack ?st3 = replay F ?st3 (drop (nat (pos ?st3)) opStack)"
          using "1.IH" [of bs brk st1 "resolveNextTick F st1" ?st3] Inr bs False True p3 "1.prems" body
          by (simp add: nextTick_def Let_def)
        then show ?thesis
          using True False
          by (simp add: loop.simps [of F opStack st] body dr Inr bs nextTick_def Let_def p3 nk
              resolveNextTick_pos p1)
      next
        case F2: False
        then have "drop (Suc ?k) opStack = []" using p3 "1.prems" by simp
        then show ?thesis
          using F2 False
          by (simp add: loop.simps [of F opStack st] body dr Inr bs nextTick_def Let_def)
      qed
    qed
  qed
qed

lemma loop_start:
  assumes p: "pos st = - 1"
  shows "loop F opStack st = replay F (nextTick F st) opStack"
proof -
  have body: "\<And>os. loopBody os st = Inr (False, st)" by (simp add: loopBody_def p)
  have p3: "pos (nextTick F st) = 0" by (simp add: nextTick_pos p)
  show ?thesis
  proof (cases "opStack = []")
    case True
    then show ?thesis using p3
      by (simp add: loop.simps [of F "[]" st] body nextTick_def Let_def)
  next
    case False
    then have "loop F opStack (nextTick F st) = replay F (nextTick F st) opStack"
      using loop_replay [of "nextTick F st" opStack F] p3 by simp
    then show ?thesis using False p3
      by (simp add: loop.simps [of F opStack st] body nextTick_def Let_def)
  qed
qed

lemmas run_defs = runFn_def startFn_def useTools_def createStepTools_def newTickOp_def
  resolveNextTick_def nextTick_def processOp_def elemAt_def settle_def
  discoveredOps_def discoveredOp_def tickOpsOf_def lastOpPosition_def runUserFn_def Let_def
  loop_start runAt_def dataAt_def errorAt_def

lemma forLoop_nodeAt:
  "p \<noteq> [] \<Longrightarrow>
   forLoop inc ops p st =
     (case nodeAt ops p of
        None \<Rightarrow> Inl typeError
      | Some c \<Rightarrow>
          if run inc then
            (case fn (info c) of
               None \<Rightarrow> Inl noFnError
             | Some f \<Rightarrow> Inr (Some c, st\<lparr>userFnToRun := Some f\<rparr>))
          else
            Inr (Some c,
              st\<lparr>allFoundOps :=
                updateAt (settle (if data inc \<noteq> Undefined then Fulfilled (data inc)
                                  else Rejected (error inc)))
                  (opPosition inc) (allFoundOps st)\<rparr>))"
  by (induction inc ops p st rule: forLoop.induct) (auto split: option.splits)

lemma processOp_eq:
  assumes "userFnToRun st = None"
  shows "processOp inc st =
     (if opPosition inc = [] then Inl fnChangedError
      else (case nodeAt (allFoundOps st) (opPosition inc) of
        None \<Rightarrow> Inl typeError
      | Some c \<Rightarrow>
          if run inc then
            (case fn (info c) of
               None \<Rightarrow> Inl noFnError
             | Some f \<Rightarrow> Inr (True, st\<lparr>userFnToRun := Some f\<rparr>))
          else
            Inr (False,
              st\<lparr>allFoundOps :=
                   updateAt (settle (if data inc \<noteq> Undefined then Fulfilled (data inc)
                                     else Rejected (error inc)))
                     (opPosition inc) (allFoundOps st),
                 tickOpsRef := opPosition inc\<rparr>)))"
proof (cases "opPosition inc = []")
  case True
  then show ?thesis using assms by (simp add: processOp_def)
next
  case False
  then show ?thesis using assms
    by (simp add: processOp_def forLoop_nodeAt split: option.splits)
qed

lemma processOp_break:
  "processOp inc st = Inr (brk, st1) \<Longrightarrow> brk = (userFnToRun st1 \<noteq> None)"
  by (auto simp: processOp_def split: sum.splits prod.splits if_splits option.splits)

lemma resolveNextTick_userFnToRun: "userFnToRun (resolveNextTick F st) = userFnToRun st"
  by (simp add: resolveNextTick_def useTools_def split: prod.splits)

lemma nextTick_userFnToRun: "userFnToRun (nextTick F st) = userFnToRun st"
  by (simp add: nextTick_def Let_def resolveNextTick_userFnToRun)

lemma replay_append:
  "replay F st xs = Inr st' \<Longrightarrow> userFnToRun st' = None \<Longrightarrow>
   replay F st (xs @ ys) = replay F st' ys"
proof (induction xs arbitrary: st)
  case Nil
  then show ?case by simp
next
  case (Cons r xs)
  from Cons.prems(1) obtain brk st1 where p: "processOp r st = Inr (brk, st1)"
    by (auto split: sum.splits)
  show ?case
  proof (cases brk)
    case True
    with p Cons.prems show ?thesis using processOp_break [OF p] by simp
  next
    case False
    with p Cons.prems have "replay F (nextTick F st1) xs = Inr st'" by simp
    from Cons.IH [OF this Cons.prems(2)] show ?thesis using p False by simp
  qed
qed

lemma startFn_pos: "pos (startFn F d) = - 1"
  by (simp add: startFn_def useTools_def createStepTools_def split: prod.splits)

lemma startFn_userFnToRun: "userFnToRun (startFn F d) = None"
  by (simp add: startFn_def useTools_def createStepTools_def split: prod.splits)

text \<open>When the loop over the records before \<open>r\<close> ends in \<open>st\<close> with no thunk selected,
  the loop over the whole op stack handles \<open>r\<close> in \<open>st\<close>.\<close>

lemma loop_reaches:
  assumes "loop F pre (startFn F d) = Inr st" and "userFnToRun st = None"
  shows "loop F (pre @ r # post) (startFn F d) =
     (case processOp r st of
        Inl e \<Rightarrow> Inl e
      | Inr (brk, st1) \<Rightarrow> if brk then Inr st1 else replay F (nextTick F st1) post)"
proof -
  have "replay F (nextTick F (startFn F d)) pre = Inr st"
    using assms(1) by (simp add: loop_start startFn_pos)
  from replay_append [OF this assms(2)] show ?thesis
    by (simp add: loop_start startFn_pos)
qed

lemma runFn_selects:
  assumes "hasUsedTools (startFn F d)"
    and "loop F pre (startFn F d) = Inr st" and "userFnToRun st = None"
    and "run r" and "nodeAt (allFoundOps st) (opPosition r) = Some c"
    and "fn (info c) = Some f"
  shows "runFn F ser d (pre @ r # post) = runUserFn ser f"
proof -
  have ne: "opPosition r \<noteq> []" using assms(5) by (cases "opPosition r") auto
  have "processOp r st = Inr (True, st\<lparr>userFnToRun := Some f\<rparr>)"
    using assms ne by (simp add: processOp_eq)
  then have "loop F (pre @ r # post) (startFn F d) = Inr (st\<lparr>userFnToRun := Some f\<rparr>)"
    using loop_reaches [OF assms(2,3)] by simp
  then show ?thesis using assms(1) by (simp add: runFn_def)
qed

lemma runFn_drift:
  assumes "hasUsedTools (startFn F d)"
    and "loop F pre (startFn F d) = Inr st" and "userFnToRun st = None"
    and "nodeAt (allFoundOps st) (opPosition r) = None \<or>
         (run r \<and> (\<exists>c. nodeAt (allFoundOps st) (opPosition r) = Some c \<and> fn (info c) = None))"
  shows "runFn F ser d (pre @ r # post) =
     ([], Rejected (if opPosition r = [] then fnChangedError
                    else if nodeAt (allFoundOps st) (opPosition r) = None then typeError
                    else noFnError))"
proof -
  have "processOp r st =
     Inl (if opPosition r = [] then fnChangedError
          else if nodeAt (allFoundOps st) (opPosition r) = None then typeError
          else noFnError)"
    using assms(3,4) by (auto simp: processOp_eq)
  then have "loop F (pre @ r # post) (startFn F d) =
     Inl (if opPosition r = [] then fnChangedError
          else if nodeAt (allFoundOps st) (opPosition r) = None then typeError
          else noFnError)"
    using loop_reaches [OF assms(2,3)] by simp
  then show ?thesis using assms(1) by (simp add: runFn_def)
qed

section \<open>Facts about the op tree\<close>

lemma elemAt_Some: "elemAt xs i = Some c \<longleftrightarrow> 0 \<le> i \<and> nat i < length xs \<and> xs ! nat i = c"
  by (auto simp: elemAt_def)

lemma elemAt_update:
  "elemAt (xs[k := v]) i = (if elemAt xs i = None then None else if nat i = k then Some v else elemAt xs i)"
  by (auto simp: elemAt_def)

lemma elemAt_append:
  "elemAt (xs @ ys) i = (case elemAt xs i of Some c \<Rightarrow> Some c | None \<Rightarrow>
      if i < 0 then None else elemAt ys (i - int (length xs)))"
  by (auto simp: elemAt_def nth_append nat_diff_distrib)

lemma nodeAt_Cons:
  "nodeAt ops (i # p) =
     (case elemAt ops i of None \<Rightarrow> None
      | Some c \<Rightarrow> if p = [] then Some c else nodeAt (tickOps c) p)"
  by (cases p) (auto split: option.splits)

lemma updateAt_Cons:
  "updateAt f (i # p) ops =
     (case elemAt ops i of None \<Rightarrow> ops
      | Some c \<Rightarrow> ops[nat i := (if p = [] then f c
                                   else TickOp (info c) (updateAt f p (tickOps c)) (settled c))])"
  by (cases p) (auto split: option.splits)

lemma nodeAt_arrayAt: "nodeAt ops p = Some c \<Longrightarrow> arrayAt ops p = Some (tickOps c)"
  by (induction ops p rule: nodeAt.induct) (auto split: option.splits)

text \<open>A parent of a node has children.\<close>

lemma nodeAt_parent:
  "nodeAt ops (q @ [i]) = Some c \<Longrightarrow> q \<noteq> [] \<Longrightarrow>
   \<exists>c0. nodeAt ops q = Some c0 \<and> tickOps c0 \<noteq> []"
proof (induction q arbitrary: ops)
  case Nil
  then show ?case by simp
next
  case (Cons j q)
  from Cons.prems(1) obtain d where d: "elemAt ops j = Some d"
    and n: "nodeAt (tickOps d) (q @ [i]) = Some c"
    by (auto simp: nodeAt_Cons split: option.splits)
  show ?case
  proof (cases "q = []")
    case True
    with n have "elemAt (tickOps d) i = Some c" by simp
    then have "tickOps d \<noteq> []" by (auto simp: elemAt_def split: if_splits)
    with d True show ?thesis by (simp add: nodeAt_Cons)
  next
    case False
    from Cons.IH [OF n False] d False show ?thesis by (simp add: nodeAt_Cons)
  qed
qed

lemma length_updateAt: "length (updateAt f p ops) = length ops"
  by (cases p) (auto simp: updateAt_Cons split: option.splits)

text \<open>Settling the promise of one node: the other nodes keep their promises, and every
  node keeps its op and whether it has children.\<close>

lemma nodeAt_updateAt:
  assumes "\<And>c. info (f c) = info c" and "\<And>c. tickOps (f c) = tickOps c"
  shows "nodeAt (updateAt f p ops) q = Some c' \<Longrightarrow>
     \<exists>c. nodeAt ops q = Some c \<and> info c' = info c \<and>
         (tickOps c' = [] \<longleftrightarrow> tickOps c = []) \<and>
         settled c' = (if q = p then settled (f c) else settled c)"
proof (induction p arbitrary: ops q c')
  case Nil
  then show ?case by (cases q) auto
next
  case (Cons i p)
  show ?case
  proof (cases q)
    case Nil
    with Cons.prems show ?thesis by simp
  next
    case q: (Cons j q')
    show ?thesis
    proof (cases "elemAt ops i")
      case None
      with Cons.prems q show ?thesis
        by (auto simp: updateAt_Cons nodeAt_Cons elemAt_def split: option.splits if_splits)
    next
      case (Some d)
      show ?thesis
      proof (cases "j = i")
        case False
        then have "nat j \<noteq> nat i \<or> elemAt ops j = None" using Some
          by (auto simp: elemAt_def split: if_splits)
        with Cons.prems q Some False show ?thesis
          by (auto simp: updateAt_Cons nodeAt_Cons elemAt_update split: option.splits if_splits)
      next
        case True
        show ?thesis
        proof (cases "p = []")
          case pe: True
          with Cons.prems q Some True assms show ?thesis
            by (auto simp: updateAt_Cons nodeAt_Cons elemAt_update split: option.splits if_splits)
        next
          case pn: False
          show ?thesis
          proof (cases "q' = []")
            case qe: True
            have "length (updateAt f p (tickOps d)) = length (tickOps d)"
              by (rule length_updateAt)
            then have "(updateAt f p (tickOps d) = []) = (tickOps d = [])"
              by (metis length_0_conv)
            with Cons.prems q Some True pn qe show ?thesis
              by (auto simp: updateAt_Cons nodeAt_Cons elemAt_update split: option.splits if_splits)
          next
            case qn: False
            from Cons.prems q Some True pn qn
            have "nodeAt (updateAt f p (tickOps d)) q' = Some c'"
              by (auto simp: updateAt_Cons nodeAt_Cons elemAt_update split: option.splits if_splits)
            from Cons.IH [OF this] q Some True pn qn show ?thesis
              by (auto simp: nodeAt_Cons)
          qed
        qed
      qed
    qed
  qed
qed

lemma nodeAt_updateAt_same: "nodeAt (updateAt f p ops) p = map_option f (nodeAt ops p)"
proof (induction p arbitrary: ops)
  case Nil
  then show ?case by simp
next
  case (Cons i p)
  show ?case
  proof (cases "elemAt ops i")
    case None
    then show ?thesis by (simp add: updateAt_Cons nodeAt_Cons)
  next
    case (Some d)
    then show ?thesis using Cons.IH [of "tickOps d"]
      by (auto simp: updateAt_Cons nodeAt_Cons elemAt_update)
  qed
qed

text \<open>Pushing new nodes onto the array at a path.\<close>

lemma arrayAt_pushAt:
  "arrayAt ops p = Some old \<Longrightarrow> arrayAt (pushAt p new ops) p = Some (old @ new)"
proof (induction p arbitrary: ops)
  case Nil
  then show ?case by simp
next
  case (Cons i p)
  then show ?case by (auto simp: elemAt_update split: option.splits)
qed

lemma nodeAt_pushAt:
  assumes new: "\<And>n. n \<in> set new \<Longrightarrow> tickOps n = [] \<and> settled n = Pending"
  shows "nodeAt (pushAt p new ops) q = Some c' \<Longrightarrow>
     (settled c' = Pending \<and> tickOps c' = []) \<or>
     (\<exists>c. nodeAt ops q = Some c \<and> settled c' = settled c \<and>
          (tickOps c' \<noteq> [] \<longrightarrow> tickOps c \<noteq> [] \<or> q = p))"
proof (induction p arbitrary: ops q c')
  case Nil
  show ?case
  proof (cases q)
    case Nil
    with Nil.prems show ?thesis by simp
  next
    case (Cons j q')
    show ?thesis
    proof (cases "elemAt ops j")
      case (Some d)
      with Nil.prems Cons show ?thesis
        by (auto simp: nodeAt_Cons elemAt_append split: if_splits)
    next
      case None
      show ?thesis
      proof (cases "elemAt (ops @ new) j")
        case N2: None
        with Nil.prems Cons show ?thesis by (simp add: nodeAt_Cons)
      next
        case (Some n)
        with None have "0 \<le> j" "\<not> nat j < length ops" "nat j < length (ops @ new)"
          "n = (ops @ new) ! nat j"
          by (auto simp: elemAt_def split: if_splits)
        then have "n = new ! (nat j - length ops)" "nat j - length ops < length new"
          by (auto simp: nth_append)
        then have "n \<in> set new" by simp
        with new have n: "tickOps n = []" "settled n = Pending" by auto
        have "nodeAt [] q' = None" by (cases q') (auto simp: nodeAt_Cons elemAt_def)
        with Nil.prems Cons Some n show ?thesis
          by (auto simp: nodeAt_Cons split: if_splits)
      qed
    qed
  qed
next
  case (Cons i p)
  show ?case
  proof (cases q)
    case Nil
    with Cons.prems show ?thesis by simp
  next
    case q: (Cons j q')
    show ?thesis
    proof (cases "elemAt ops i")
      case None
      with Cons.prems q show ?thesis by auto
    next
      case (Some d)
      show ?thesis
      proof (cases "j = i")
        case False
        then have "nat j \<noteq> nat i \<or> elemAt ops j = None" using Some
          by (auto simp: elemAt_def split: if_splits)
        with Cons.prems q Some False show ?thesis
          by (auto simp: nodeAt_Cons elemAt_update split: option.splits if_splits)
      next
        case True
        show ?thesis
        proof (cases "q' = []")
          case qe: True
          with Cons.prems q Some True show ?thesis
            by (cases p) (auto simp: nodeAt_Cons elemAt_update split: option.splits if_splits)
        next
          case qn: False
          from Cons.prems q Some True qn
          have "nodeAt (pushAt p new (tickOps d)) q' = Some c'"
            by (auto simp: nodeAt_Cons elemAt_update split: option.splits if_splits)
          from Cons.IH [OF this] q Some True qn show ?thesis
            by (auto simp: nodeAt_Cons)
        qed
      qed
    qed
  qed
qed

section \<open>Nodes are visited before their children\<close>

lemma nodeAt_Nil_tree: "nodeAt [] q = None"
  by (cases q) (auto simp: nodeAt_Cons elemAt_def)

lemma wellVisited_useTools:
  assumes "wellVisited P st"
  shows "wellVisited P (useTools calls st)"
proof -
  let ?new = "map newTickOp calls"
  have new: "\<And>n. n \<in> set ?new \<Longrightarrow> tickOps n = [] \<and> settled n = Pending"
    by (auto simp: newTickOp_def)
  have tree: "allFoundOps (useTools calls st) = pushAt (tickOpsRef st) ?new (allFoundOps st)"
    and ref: "tickOpsRef (useTools calls st) = tickOpsRef st"
    by (simp_all add: useTools_def)
  have a: "q \<in> P" if n: "nodeAt (allFoundOps (useTools calls st)) q = Some c'"
    and s: "settled c' \<noteq> Pending \<or> tickOps c' \<noteq> []" for q c'
  proof -
    from nodeAt_pushAt [where new = ?new and p = "tickOpsRef st" and ops = "allFoundOps st"
        and q = q and c' = c', OF new] n s tree
    obtain c where c: "nodeAt (allFoundOps st) q = Some c" "settled c' = settled c"
      "tickOps c' \<noteq> [] \<longrightarrow> tickOps c \<noteq> [] \<or> q = tickOpsRef st"
      by auto
    from c(1) have "q \<noteq> []" by (cases q) auto
    with assms c s show ?thesis unfolding wellVisited_def by metis
  qed
  from assms obtain old where "arrayAt (allFoundOps st) (tickOpsRef st) = Some old"
    unfolding wellVisited_def by auto
  from arrayAt_pushAt [OF this, of ?new] have "arrayAt (allFoundOps (useTools calls st)) (tickOpsRef st) \<noteq> None"
    by (simp add: tree)
  with a assms ref show ?thesis unfolding wellVisited_def by auto
qed

lemma wellVisited_nextTick:
  assumes "wellVisited P st"
  shows "wellVisited P (nextTick F st)"
proof -
  obtain calls u where m: "microtasks F (allFoundOps st) (ufn st) = (calls, u)"
    by (cases "microtasks F (allFoundOps st) (ufn st)")
  have "wellVisited P (st\<lparr>ufn := u\<rparr>)" using assms by (simp add: wellVisited_def)
  from wellVisited_useTools [OF this, of calls]
  have "wellVisited P (resolveNextTick F st)" by (simp add: resolveNextTick_def m)
  then show ?thesis by (simp add: nextTick_def Let_def wellVisited_def)
qed

lemma wellVisited_startFn: "wellVisited {} (startFn F d)"
proof -
  obtain calls u where c: "call F d = (calls, u)" by (cases "call F d")
  have "wellVisited {} (createStepTools u)"
    by (simp add: wellVisited_def createStepTools_def nodeAt_Nil_tree)
  from wellVisited_useTools [OF this, of calls] show ?thesis by (simp add: startFn_def c)
qed

text \<open>What a record does when the loop goes on after it.\<close>

lemma processOp_False:
  assumes "processOp r st = Inr (False, st1)"
  shows "\<exists>c. nodeAt (allFoundOps st) (opPosition r) = Some c \<and> \<not> run r \<and>
     st1 = st\<lparr>allFoundOps :=
                updateAt (settle (if data r \<noteq> Undefined then Fulfilled (data r)
                                  else Rejected (error r)))
                  (opPosition r) (allFoundOps st),
              tickOpsRef := opPosition r\<rparr>"
proof (cases "opPosition r = []")
  case True
  with assms show ?thesis by (auto simp: processOp_def split: if_splits)
next
  case False
  with assms show ?thesis
    by (auto simp: processOp_def forLoop_nodeAt split: option.splits if_splits)
qed

lemma settle_keeps: "info (settle x c) = info c" "tickOps (settle x c) = tickOps c"
  by (auto simp: settle_def split: promise.splits)

lemma wellVisited_processOp:
  assumes "wellVisited P st" and "processOp r st = Inr (False, st1)"
  shows "wellVisited (insert (opPosition r) P) st1"
proof -
  let ?x = "if data r \<noteq> Undefined then Fulfilled (data r) else Rejected (error r)"
  let ?p = "opPosition r"
  from processOp_False [OF assms(2)] obtain c where
    c: "nodeAt (allFoundOps st) ?p = Some c"
    and st1: "st1 = st\<lparr>allFoundOps := updateAt (settle ?x) ?p (allFoundOps st), tickOpsRef := ?p\<rparr>"
    by auto
  have a: "q \<in> insert ?p P" if n: "nodeAt (allFoundOps st1) q = Some c'"
    and s: "settled c' \<noteq> Pending \<or> tickOps c' \<noteq> []" for q c'
  proof (cases "q = ?p")
    case True
    then show ?thesis by simp
  next
    case False
    from nodeAt_updateAt [where f = "settle ?x" and p = ?p and ops = "allFoundOps st"
        and q = q and c' = c'] n st1 False
    obtain c0 where "nodeAt (allFoundOps st) q = Some c0" "settled c' = settled c0"
      "tickOps c' = [] \<longleftrightarrow> tickOps c0 = []"
      by (auto simp: settle_keeps)
    with assms(1) s show ?thesis unfolding wellVisited_def by auto
  qed
  have "nodeAt (allFoundOps st1) ?p = Some (settle ?x c)"
    using c st1 by (simp add: nodeAt_updateAt_same)
  from nodeAt_arrayAt [OF this] have "arrayAt (allFoundOps st1) (tickOpsRef st1) \<noteq> None"
    using st1 by simp
  with a st1 show ?thesis unfolding wellVisited_def by auto
qed

text \<open>The loop over some records, when it selects no thunk: the reference
  \<open>state.tickOps\<close> is the array of the node of the last record, every record but
  those of root nodes comes after the record of its parent, and only nodes with a record
  are settled or have children.\<close>

lemma replay_visits:
  assumes "replay F st rs = Inr st'" and "userFnToRun st' = None" and "wellVisited P st"
  shows "wellVisited (P \<union> opPosition ` set rs) st' \<and>
         (rs \<noteq> [] \<longrightarrow> tickOpsRef st' = opPosition (last rs)) \<and>
         (\<forall>j < length rs. \<forall>q i. opPosition (rs ! j) = q @ [i] \<longrightarrow> q \<noteq> [] \<longrightarrow>
            q \<in> P \<union> opPosition ` set (take j rs))"
  using assms
proof (induction rs arbitrary: st P)
  case Nil
  then show ?case by simp
next
  case (Cons r rs)
  from Cons.prems(1) obtain brk st1 where p: "processOp r st = Inr (brk, st1)"
    by (auto split: sum.splits)
  have nb: "\<not> brk"
  proof
    assume brk
    with p Cons.prems(1) have "st' = st1" by simp
    with processOp_break [OF p] \<open>brk\<close> Cons.prems(2) show False by simp
  qed
  with p Cons.prems(1) have rp: "replay F (nextTick F st1) rs = Inr st'" by simp
  from p nb have p': "processOp r st = Inr (False, st1)" by simp
  have w1: "wellVisited (insert (opPosition r) P) st1"
    by (rule wellVisited_processOp [OF Cons.prems(3) p'])
  then have w2: "wellVisited (insert (opPosition r) P) (nextTick F st1)"
    by (rule wellVisited_nextTick)
  note IH = Cons.IH [OF rp Cons.prems(2) w2]
  have ref1: "tickOpsRef (nextTick F st1) = opPosition r"
    using processOp_False [OF p']
    by (auto simp: nextTick_def Let_def resolveNextTick_def useTools_def split: prod.splits)
  have first: "q \<in> P" if "opPosition r = q @ [i]" "q \<noteq> []" for q i
  proof -
    from processOp_False [OF p'] that obtain c where "nodeAt (allFoundOps st) (q @ [i]) = Some c"
      by auto
    from nodeAt_parent [OF this that(2)] obtain c0 where
      "nodeAt (allFoundOps st) q = Some c0" "tickOps c0 \<noteq> []" by auto
    with Cons.prems(3) show ?thesis unfolding wellVisited_def by auto
  qed
  have c1: "wellVisited (P \<union> opPosition ` set (r # rs)) st'" using IH by simp
  have c2: "tickOpsRef st' = opPosition (last (r # rs))"
  proof (cases "rs = []")
    case True
    with rp ref1 show ?thesis by simp
  next
    case False
    with IH show ?thesis by simp
  qed
  have c3: "q \<in> P \<union> opPosition ` set (take j (r # rs))"
    if "j < length (r # rs)" "opPosition ((r # rs) ! j) = q @ [i]" "q \<noteq> []" for j q i
  proof (cases j)
    case 0
    with that first show ?thesis by simp
  next
    case (Suc k)
    with that IH have "q \<in> insert (opPosition r) P \<union> opPosition ` set (take k rs)"
      by auto
    with Suc show ?thesis by auto
  qed
  from c1 c2 c3 show ?case by blast
qed

lemma replay_nonempty:
  assumes "replay F st rs = Inr st'" and "userFnToRun st' = None"
  shows "\<forall>r \<in> set rs. opPosition r \<noteq> []"
  using assms
proof (induction rs arbitrary: st)
  case Nil
  then show ?case by simp
next
  case (Cons r rs)
  from Cons.prems(1) obtain brk st1 where p: "processOp r st = Inr (brk, st1)"
    by (auto split: sum.splits)
  have nb: "\<not> brk"
  proof
    assume brk
    with p Cons.prems(1) have "st' = st1" by simp
    with processOp_break [OF p] \<open>brk\<close> Cons.prems(2) show False by simp
  qed
  with p Cons.prems(1) have rp: "replay F (nextTick F st1) rs = Inr st'" by simp
  from p nb have "processOp r st = Inr (False, st1)" by simp
  from processOp_False [OF this] have "opPosition r \<noteq> []" by (cases "opPosition r") auto
  with Cons.IH [OF rp Cons.prems(2)] show ?case by simp
qed

lemma map_enumerate_nth:
  "map (\<lambda>(i, c). f i c) (enumerate 0 xs) = map (\<lambda>i. f i (xs ! i)) [0..<length xs]"
  by (rule nth_equalityI) (simp_all add: nth_enumerate_eq)

text \<open>No record of a replayed op stack with distinct paths leads to a child of the node
  of its last record.\<close>

lemma replay_unmatched:
  assumes "replay F st rs = Inr st'" and "userFnToRun st' = None" and "wellVisited {} st"
    and "distinct (map opPosition rs)" and "rs \<noteq> []"
  shows "opPosition (last rs) @ [i] \<notin> opPosition ` set rs"
proof
  let ?b = "opPosition (last rs)"
  assume "?b @ [i] \<in> opPosition ` set rs"
  then obtain j where j: "j < length rs" "opPosition (rs ! j) = ?b @ [i]"
    by (auto simp: in_set_conv_nth)
  have "?b \<noteq> []" using replay_nonempty [OF assms(1,2)] assms(5) by simp
  with replay_visits [OF assms(1,2,3)] j have "?b \<in> opPosition ` set (take j rs)" by auto
  then obtain k where k: "k < j" "opPosition (rs ! k) = ?b"
    by (auto simp: in_set_conv_nth)
  let ?n = "length rs - 1"
  have "opPosition (rs ! ?n) = ?b" using assms(5) by (simp add: last_conv_nth)
  moreover have "k < length rs" "?n < length rs" "k \<noteq> ?n" using k j by auto
  ultimately show False
    using assms(4) k(2) by (metis distinct_conv_nth length_map nth_map)
qed

lemma startFn_tree: "allFoundOps (startFn F d) = map newTickOp (fst (call F d))"
  by (simp add: startFn_def useTools_def createStepTools_def split: prod.splits)

lemma startFn_tickOpsRef: "tickOpsRef (startFn F d) = []"
  by (simp add: startFn_def useTools_def createStepTools_def split: prod.splits)

section \<open>The claims\<close>

lemma startFn_hasUsedTools: "hasUsedTools (startFn F d) = (fst (call F d) \<noteq> [])"
  by (simp add: startFn_def useTools_def createStepTools_def split: prod.splits)

lemma startFn_ufn: "ufn (startFn F d) = snd (call F d)"
  by (simp add: startFn_def useTools_def createStepTools_def split: prod.splits)

lemma chain_loop0: "loop chainFn [] (startFn chainFn Null) = Inr chainState0"
  by (simp add: run_defs chainFn_def chainState0_def)

lemma chain_loop1: "loop chainFn [dataAt [0] (Num 1)] (startFn chainFn Null) = Inr chainState1"
  by (simp add: run_defs chainFn_def chainState1_def opA_def)

lemma void_loop0: "loop voidFn [] (startFn voidFn Null) = Inr voidState0"
  by (simp add: run_defs voidFn_def voidState0_def)

lemma wait_loop0: "loop waitFn [] (startFn waitFn Null) = Inr waitState0"
  by (simp add: run_defs waitFn_def waitState0_def)

text \<open>
  Claim C1, with the runs that return no outcome. The promise of \<open>runFn\<close> is
  rejected (the awaited function threw, or the loop failed),
  never settles (the awaited function or the selected thunk never settles), or is
  fulfilled with exactly one of \<open>"single"\<close> (no tool called synchronously),
  \<open>"multi-discovery"\<close> (the loop selected no thunk) and \<open>"multi-run"\<close> (the loop
  selected a thunk), each only in its own case; and \<open>"multi-run"\<close> carries \<open>data\<close> or
  \<open>error\<close>, never both and never neither.
\<close>

theorem outcome_cases:
  "(case snd (runFn F ser d h) of
      Pending \<Rightarrow>
        (fst (call F d) = [] \<and> awaited F (snd (call F d)) = Pending) \<or>
        (fst (call F d) \<noteq> [] \<and>
           (\<exists>st. loop F h (startFn F d) = Inr st \<and> userFnToRun st = Some Pending))
    | Rejected e \<Rightarrow>
        (fst (call F d) = [] \<and> awaited F (snd (call F d)) = Rejected e) \<or>
        (fst (call F d) \<noteq> [] \<and> loop F h (startFn F d) = Inl e)
    | Fulfilled (Single v) \<Rightarrow>
        fst (call F d) = [] \<and> awaited F (snd (call F d)) = Fulfilled v
    | Fulfilled (MultiDiscovery ops) \<Rightarrow>
        fst (call F d) \<noteq> [] \<and>
        (\<exists>st. loop F h (startFn F d) = Inr st \<and> userFnToRun st = None \<and>
              ops = discoveredOps h st)
    | Fulfilled (MultiRun r) \<Rightarrow>
        fst (call F d) \<noteq> [] \<and>
        (\<exists>st f. loop F h (startFn F d) = Inr st \<and> userFnToRun st = Some f \<and> f \<noteq> Pending) \<and>
        (res_data r = None) \<noteq> (res_error r = None))"
proof (cases "fst (call F d) = []")
  case True
  then show ?thesis
    by (simp add: runFn_def startFn_hasUsedTools startFn_ufn split: promise.splits)
next
  case False
  show ?thesis
  proof (cases "loop F h (startFn F d)")
    case (Inl e)
    with False show ?thesis by (simp add: runFn_def startFn_hasUsedTools)
  next
    case (Inr st)
    show ?thesis
    proof (cases "userFnToRun st")
      case None
      with False Inr show ?thesis by (simp add: runFn_def startFn_hasUsedTools)
    next
      case (Some f)
      with False Inr show ?thesis
        by (cases f) (simp_all add: runFn_def startFn_hasUsedTools runUserFn_def split: sum.splits)
    qed
  qed
qed

theorem outcome_cases_witness:
  "fst (call chainFn Null) \<noteq> [] \<and>
   loop chainFn [runAt [0]] (startFn chainFn Null) = Inr (chainState0\<lparr>userFnToRun := Some (Fulfilled (Num 1))\<rparr>) \<and>
   runFn chainFn exampleSerializer Null [runAt [0]] =
     ([], Fulfilled (MultiRun \<lparr>res_data = Some (Num 1), res_error = None\<rparr>))"
proof -
  have a: "runFn chainFn exampleSerializer Null [runAt [0]] =
     ([], Fulfilled (MultiRun \<lparr>res_data = Some (Num 1), res_error = None\<rparr>))"
    by (simp add: run_defs chainFn_def opA_def)
  have b: "loop chainFn [runAt [0]] (startFn chainFn Null) = Inr (chainState0\<lparr>userFnToRun := Some (Fulfilled (Num 1))\<rparr>)"
    by (simp add: run_defs chainFn_def opA_def chainState0_def)
  show ?thesis
    using outcome_cases [where F = chainFn and ser = exampleSerializer and d = Null
        and h = "[runAt [0]]"] a b
    by (simp add: chainFn_def)
qed

text \<open>No outcome is returned when a user function without step tools throws.\<close>

theorem outcome_counterexample:
  "fst (call throwFn Null) = [] \<and>
   runFn throwFn exampleSerializer Null [] = ([], Rejected (ErrorObj ''Error'' ''boom''))"
  by (simp add: run_defs throwFn_def)

text \<open>
  Claim C2, for the records the loop reaches. When the user function called a tool
  synchronously and the loop reaches a record (every record before it was handled and
  selected nothing) whose path leads to no node, or whose run flag is set while its node
  has no thunk, \<open>runFn\<close> is rejected and returns no outcome: with
  \<open>Bad stack; fn might have changed\<close> for the empty path, with
  \<open>Bad stack; no fn to execute\<close> for the node without a thunk. A record after one
  that selects a thunk is never looked at.
\<close>

theorem drift_fails_when_reached:
  assumes "fst (call F d) \<noteq> []"
    and "loop F pre (startFn F d) = Inr st" and "userFnToRun st = None"
    and "nodeAt (allFoundOps st) (opPosition r) = None \<or>
         (run r \<and> (\<exists>c. nodeAt (allFoundOps st) (opPosition r) = Some c \<and> fn (info c) = None))"
  shows "\<exists>e. runFn F ser d (pre @ r # post) = ([], Rejected e) \<and>
           (opPosition r = [] \<longrightarrow> e = fnChangedError) \<and>
           (nodeAt (allFoundOps st) (opPosition r) \<noteq> None \<longrightarrow> e = noFnError)"
proof -
  have ne: "nodeAt (allFoundOps st) (opPosition r) \<noteq> None \<Longrightarrow> opPosition r \<noteq> []"
    by (cases "opPosition r") auto
  show ?thesis
    using runFn_drift [of F d pre st r ser post] assms ne
    by (auto simp: startFn_hasUsedTools)
qed

theorem drift_fails_when_reached_witness:
  "fst (call waitFn Null) \<noteq> [] \<and>
   loop waitFn [] (startFn waitFn Null) = Inr waitState0 \<and>
   userFnToRun waitState0 = None \<and>
   nodeAt (allFoundOps waitState0) (opPosition (dataAt [2] (Num 1))) = None \<and>
   run (runAt [0]) \<and>
   nodeAt (allFoundOps waitState0) (opPosition (runAt [0])) = Some (TickOp opW [] Pending) \<and>
   fn (info (TickOp opW [] Pending)) = None \<and>
   snd (runFn waitFn exampleSerializer Null ([] @ dataAt [2] (Num 1) # [runAt [1]])) \<noteq> Pending \<and>
   runFn waitFn exampleSerializer Null ([] @ runAt [0] # []) = ([], Rejected noFnError)"
proof -
  have h1: "fst (call waitFn Null) \<noteq> []" by (simp add: waitFn_def)
  have h3: "userFnToRun waitState0 = None" by (simp add: waitState0_def)
  have h4: "nodeAt (allFoundOps waitState0) (opPosition (dataAt [2] (Num 1))) = None"
    by (simp add: waitState0_def dataAt_def elemAt_def)
  have h5: "run (runAt [0])" by (simp add: runAt_def)
  have h6: "nodeAt (allFoundOps waitState0) (opPosition (runAt [0])) = Some (TickOp opW [] Pending)"
    by (simp add: waitState0_def runAt_def elemAt_def)
  have h7: "fn (info (TickOp opW [] Pending)) = None" by (simp add: opW_def)
  have a: "snd (runFn waitFn exampleSerializer Null ([] @ dataAt [2] (Num 1) # [runAt [1]])) \<noteq> Pending"
    using drift_fails_when_reached [OF h1 wait_loop0 h3, of "dataAt [2] (Num 1)" exampleSerializer "[runAt [1]]"] h4
    by auto
  have b: "runFn waitFn exampleSerializer Null ([] @ runAt [0] # []) = ([], Rejected noFnError)"
    using drift_fails_when_reached [OF h1 wait_loop0 h3, of "runAt [0]" exampleSerializer "[]"] h5 h6 h7
    by auto
  show ?thesis using h1 wait_loop0 h3 h4 h5 h6 h7 a b by simp
qed

text \<open>That a record of the op stack leads to no node is not enough: the record
  \<open>[7]\<close> comes after a record that selects the thunk of step \<open>a\<close>, and the step is
  run.\<close>

theorem drift_counterexample:
  "nodeAt (allFoundOps (startFn chainFn Null)) [7] = None \<and>
   runFn chainFn exampleSerializer Null [runAt [0], dataAt [7] (Num 1)] =
     ([], Fulfilled (MultiRun \<lparr>res_data = Some (Num 1), res_error = None\<rparr>))"
  by (simp add: run_defs chainFn_def opA_def)

text \<open>
  Claim C3. The loop reaches a record with the run flag set (every record before it was
  handled and selected nothing), the record leads to a node with a thunk, and the thunk
  throws \<open>err\<close>. Then \<open>runFn\<close> does not fail: it returns \<open>"multi-run"\<close> with
  \<open>{ error }\<close>, the serialized error (the thrown value itself when the serializer
  throws).
\<close>

theorem thrown_step_is_reported:
  assumes "fst (call F d) \<noteq> []"
    and "loop F pre (startFn F d) = Inr st" and "userFnToRun st = None"
    and "run r" and "nodeAt (allFoundOps st) (opPosition r) = Some c"
    and "fn (info c) = Some (Rejected err)"
  shows "snd (runFn F ser d (pre @ r # post)) =
     Fulfilled (MultiRun \<lparr>res_data = None,
                          res_error = Some (case ser err of Inl x \<Rightarrow> err | Inr s \<Rightarrow> s)\<rparr>)"
  using runFn_selects [of F d pre st r c "Rejected err" ser post] assms
  by (simp add: startFn_hasUsedTools runUserFn_def split: sum.splits)

theorem thrown_step_is_reported_witness:
  "fst (call chainFn Null) \<noteq> [] \<and>
   loop chainFn [dataAt [0] (Num 1)] (startFn chainFn Null) = Inr chainState1 \<and>
   userFnToRun chainState1 = None \<and>
   run (runAt [0, 0]) \<and>
   nodeAt (allFoundOps chainState1) (opPosition (runAt [0, 0])) = Some (TickOp opB [] Pending) \<and>
   fn (info (TickOp opB [] Pending)) = Some (Rejected (ErrorObj ''Error'' ''boom'')) \<and>
   snd (runFn chainFn exampleSerializer Null ([dataAt [0] (Num 1)] @ runAt [0, 0] # [])) =
     Fulfilled (MultiRun \<lparr>res_data = None,
       res_error = Some (Obj [(''name'', Str ''Error''), (''message'', Str ''boom'')])\<rparr>)"
proof -
  have h1: "fst (call chainFn Null) \<noteq> []" by (simp add: chainFn_def)
  have h3: "userFnToRun chainState1 = None" by (simp add: chainState1_def)
  have h4: "run (runAt [0, 0])" by (simp add: runAt_def)
  have h5: "nodeAt (allFoundOps chainState1) (opPosition (runAt [0, 0])) = Some (TickOp opB [] Pending)"
    by (simp add: chainState1_def runAt_def elemAt_def)
  have h6: "fn (info (TickOp opB [] Pending)) = Some (Rejected (ErrorObj ''Error'' ''boom''))"
    by (simp add: opB_def)
  from thrown_step_is_reported [OF h1 chain_loop1 h3 h4 h5 h6, of exampleSerializer "[]"]
  show ?thesis using h1 chain_loop1 h3 h4 h5 h6 by (simp add: exampleSerializer_def)
qed

text \<open>
  Claim C4. When the user function called a tool synchronously and the loop ends with no
  thunk selected, \<open>runFn\<close> returns \<open>"multi-discovery"\<close> with one entry for each node
  of the array \<open>state.tickOps\<close>, in the order of the array, which is the order in which
  the tools were called. That array is the one at the position path of the last record
  of the op stack (the root array for the empty op stack), and the position of the
  entry with index \<open>i\<close> is that path followed by \<open>i\<close>. For the empty op stack the
  entries are the tools called synchronously followed by those called in the first tick,
  at \<open>[0]\<close>, \<open>[1]\<close>, ... When the paths of the op stack are distinct, no record of the
  op stack has the position of an entry: the entries are unmatched.
\<close>

theorem discovery_lists_active_steps:
  assumes "fst (call F d) \<noteq> []"
    and "loop F h (startFn F d) = Inr st" and "userFnToRun st = None"
  shows "\<exists>kids. arrayAt (allFoundOps st) (lastOpPosition h) = Some kids \<and>
     runFn F ser d h =
       ([], Fulfilled (MultiDiscovery
          (map (\<lambda>i. \<lparr>out_op = op (info (kids ! i)),
                     out_run = (fn (info (kids ! i)) \<noteq> None),
                     out_id = op_id (info (kids ! i)),
                     out_name = name (info (kids ! i)),
                     out_opts = opts (info (kids ! i)),
                     out_opPosition = lastOpPosition h @ [int i]\<rparr>)
             [0..<length kids]))) \<and>
     (h = [] \<longrightarrow>
        kids = map newTickOp
          (fst (call F d) @
           fst (microtasks F (map newTickOp (fst (call F d))) (snd (call F d))))) \<and>
     (distinct (map opPosition h) \<longrightarrow>
        (\<forall>i. lastOpPosition h @ [i] \<notin> opPosition ` set h))"
proof -
  let ?st0 = "nextTick F (startFn F d)"
  have rp: "replay F ?st0 h = Inr st" using assms(2) by (simp add: loop_start startFn_pos)
  have w0: "wellVisited {} ?st0" by (rule wellVisited_nextTick [OF wellVisited_startFn])
  from replay_visits [OF rp assms(3) w0]
  have w: "wellVisited (opPosition ` set h) st"
    and ref: "h \<noteq> [] \<Longrightarrow> tickOpsRef st = opPosition (last h)" by auto
  have ref0: "tickOpsRef ?st0 = []"
    by (simp add: nextTick_def Let_def resolveNextTick_def useTools_def startFn_tickOpsRef
        split: prod.splits)
  have refh: "tickOpsRef st = lastOpPosition h"
  proof (cases "h = []")
    case True
    with rp ref0 show ?thesis by (simp add: lastOpPosition_def)
  next
    case False
    with ref show ?thesis by (simp add: lastOpPosition_def)
  qed
  from w obtain kids where kids: "arrayAt (allFoundOps st) (tickOpsRef st) = Some kids"
    unfolding wellVisited_def by auto
  then have t: "tickOpsOf st = kids" by (simp add: tickOpsOf_def)
  have a: "arrayAt (allFoundOps st) (lastOpPosition h) = Some kids" using kids refh by simp
  have b: "runFn F ser d h =
       ([], Fulfilled (MultiDiscovery
          (map (\<lambda>i. \<lparr>out_op = op (info (kids ! i)),
                     out_run = (fn (info (kids ! i)) \<noteq> None),
                     out_id = op_id (info (kids ! i)),
                     out_name = name (info (kids ! i)),
                     out_opts = opts (info (kids ! i)),
                     out_opPosition = lastOpPosition h @ [int i]\<rparr>)
             [0..<length kids])))"
    using assms
    by (simp add: runFn_def startFn_hasUsedTools discoveredOps_def t discoveredOp_def
        map_enumerate_nth)
  have c: "kids = map newTickOp
          (fst (call F d) @
           fst (microtasks F (map newTickOp (fst (call F d))) (snd (call F d))))" if "h = []"
  proof -
    from that rp have "st = ?st0" by simp
    with kids ref0 have "kids = allFoundOps ?st0" by simp
    then show ?thesis
      by (simp add: nextTick_def Let_def resolveNextTick_def useTools_def startFn_tickOpsRef
          startFn_tree startFn_ufn split: prod.splits)
  qed
  have e: "lastOpPosition h @ [i] \<notin> opPosition ` set h" if "distinct (map opPosition h)" for i
  proof (cases "h = []")
    case True
    then show ?thesis by simp
  next
    case False
    from replay_unmatched [OF rp assms(3) w0 that False] False show ?thesis
      by (simp add: lastOpPosition_def)
  qed
  from a b c e show ?thesis by blast
qed

theorem discovery_lists_active_steps_witness:
  "fst (call chainFn Null) \<noteq> [] \<and>
   loop chainFn [dataAt [0] (Num 1)] (startFn chainFn Null) = Inr chainState1 \<and>
   userFnToRun chainState1 = None \<and>
   distinct (map opPosition [dataAt [0] (Num 1)]) \<and>
   arrayAt (allFoundOps chainState1) (lastOpPosition [dataAt [0] (Num 1)]) =
     Some [TickOp opB [] Pending] \<and>
   runFn chainFn exampleSerializer Null [dataAt [0] (Num 1)] =
     ([], Fulfilled (MultiDiscovery
        [\<lparr>out_op = ''Step'', out_run = True, out_id = ''b'', out_name = ''b'', out_opts = Null,
          out_opPosition = [0, 0]\<rparr>])) \<and>
   [0, 0] \<notin> opPosition ` set [dataAt [0] (Num 1)] \<and>
   fst (call waitFn Null) \<noteq> [] \<and>
   loop waitFn [] (startFn waitFn Null) = Inr waitState0 \<and>
   userFnToRun waitState0 = None \<and>
   runFn waitFn exampleSerializer Null [] =
     ([], Fulfilled (MultiDiscovery
        [\<lparr>out_op = ''WaitForEvent'', out_run = False, out_id = ''w'', out_name = ''w'',
          out_opts = Null, out_opPosition = [0]\<rparr>,
         \<lparr>out_op = ''Step'', out_run = True, out_id = ''b'', out_name = ''b'', out_opts = Null,
          out_opPosition = [1]\<rparr>]))"
proof -
  have h1: "fst (call chainFn Null) \<noteq> []" by (simp add: chainFn_def)
  have h3: "userFnToRun chainState1 = None" by (simp add: chainState1_def)
  have h4: "distinct (map opPosition [dataAt [0] (Num 1)])" by simp
  have k: "arrayAt (allFoundOps chainState1) (lastOpPosition [dataAt [0] (Num 1)]) =
     Some [TickOp opB [] Pending]"
    by (simp add: chainState1_def lastOpPosition_def dataAt_def elemAt_def)
  have a: "runFn chainFn exampleSerializer Null [dataAt [0] (Num 1)] =
     ([], Fulfilled (MultiDiscovery
        [\<lparr>out_op = ''Step'', out_run = True, out_id = ''b'', out_name = ''b'', out_opts = Null,
          out_opPosition = [0, 0]\<rparr>])) \<and>
     [0, 0] \<notin> opPosition ` set [dataAt [0] (Num 1)]"
    using discovery_lists_active_steps [OF h1 chain_loop1 h3, of exampleSerializer] h4 k
    by (auto simp: lastOpPosition_def dataAt_def opB_def)
  have g1: "fst (call waitFn Null) \<noteq> []" by (simp add: waitFn_def)
  have g3: "userFnToRun waitState0 = None" by (simp add: waitState0_def)
  have k2: "arrayAt (allFoundOps waitState0) (lastOpPosition []) =
     Some [TickOp opW [] Pending, TickOp opB [] Pending]"
    by (simp add: waitState0_def lastOpPosition_def)
  have u: "[0..<2] = [0, 1]" by (simp add: upt_rec)
  have b: "runFn waitFn exampleSerializer Null [] =
     ([], Fulfilled (MultiDiscovery
        [\<lparr>out_op = ''WaitForEvent'', out_run = False, out_id = ''w'', out_name = ''w'',
          out_opts = Null, out_opPosition = [0]\<rparr>,
         \<lparr>out_op = ''Step'', out_run = True, out_id = ''b'', out_name = ''b'', out_opts = Null,
          out_opPosition = [1]\<rparr>]))"
    using discovery_lists_active_steps [OF g1 wait_loop0 g3, of exampleSerializer] k2
    by (auto simp: lastOpPosition_def opB_def opW_def u)
  show ?thesis using h1 chain_loop1 h3 h4 k a g1 wait_loop0 g3 b by simp
qed

text \<open>
  Claim C5. When the user function calls no step tool (in its synchronous prefix) and the
  awaited function yields \<open>v\<close>, \<open>runFn\<close> returns \<open>"single"\<close> with \<open>v\<close>, whatever the
  op stack is, the empty one too; the loop is not run: what the continuations would do in a
  tick (\<open>m\<close>) makes no difference.
\<close>

theorem no_tools_single:
  assumes "call F d = ([], u)" and "awaited F u = Fulfilled v"
  shows "runFn F ser d h = ([], Fulfilled (Single v)) \<and>
         runFn (F\<lparr>microtasks := m\<rparr>) ser d h = ([], Fulfilled (Single v))"
  using assms by (simp add: runFn_def startFn_def useTools_def createStepTools_def)

theorem no_tools_single_witness:
  "call plainFn (Num 4) = ([], Num 4) \<and> awaited plainFn (Num 4) = Fulfilled (Num 5) \<and>
   runFn plainFn exampleSerializer (Num 4) [] = ([], Fulfilled (Single (Num 5))) \<and>
   runFn (plainFn\<lparr>microtasks := (\<lambda>tree u. ([opA], u))\<rparr>) exampleSerializer (Num 4) [runAt [0]] =
     ([], Fulfilled (Single (Num 5)))"
proof -
  have h1: "call plainFn (Num 4) = ([], Num 4)" by (simp add: plainFn_def)
  have h2: "awaited plainFn (Num 4) = Fulfilled (Num 5)" by (simp add: plainFn_def)
  show ?thesis
    using h1 h2 no_tools_single [OF h1 h2, of exampleSerializer "[]"]
      no_tools_single [OF h1 h2, of exampleSerializer "[runAt [0]]" "\<lambda>tree u. ([opA], u)"]
    by simp
qed

text \<open>
  Claim C6. As before, the selected thunk throws \<open>err\<close>, and now \<open>serializeError(err)\<close>
  throws too. Then \<open>runFn\<close> still returns \<open>"multi-run"\<close>, with the thrown value
  \<open>err\<close> itself as the error, and the only other effect is one \<open>console.warn\<close>.
\<close>

theorem serialization_failure_falls_back:
  assumes "fst (call F d) \<noteq> []"
    and "loop F pre (startFn F d) = Inr st" and "userFnToRun st = None"
    and "run r" and "nodeAt (allFoundOps st) (opPosition r) = Some c"
    and "fn (info c) = Some (Rejected err)"
    and "ser err = Inl serializationErr"
  shows "runFn F ser d (pre @ r # post) =
     ([(serializationWarning, serializationErr)],
      Fulfilled (MultiRun \<lparr>res_data = None, res_error = Some err\<rparr>))"
  using runFn_selects [of F d pre st r c "Rejected err" ser post] assms
  by (simp add: startFn_hasUsedTools runUserFn_def)

theorem serialization_failure_falls_back_witness:
  "fst (call waitFn Null) \<noteq> [] \<and>
   loop waitFn [] (startFn waitFn Null) = Inr waitState0 \<and>
   userFnToRun waitState0 = None \<and>
   run (runAt [1]) \<and>
   nodeAt (allFoundOps waitState0) (opPosition (runAt [1])) = Some (TickOp opB [] Pending) \<and>
   fn (info (TickOp opB [] Pending)) = Some (Rejected (ErrorObj ''Error'' ''boom'')) \<and>
   failingSerializer (ErrorObj ''Error'' ''boom'') = Inl (ErrorObj ''TypeError'' ''cannot serialize'') \<and>
   runFn waitFn failingSerializer Null ([] @ runAt [1] # []) =
     ([(serializationWarning, ErrorObj ''TypeError'' ''cannot serialize'')],
      Fulfilled (MultiRun \<lparr>res_data = None, res_error = Some (ErrorObj ''Error'' ''boom'')\<rparr>))"
proof -
  have h1: "fst (call waitFn Null) \<noteq> []" by (simp add: waitFn_def)
  have h3: "userFnToRun waitState0 = None" by (simp add: waitState0_def)
  have h4: "run (runAt [1])" by (simp add: runAt_def)
  have h5: "nodeAt (allFoundOps waitState0) (opPosition (runAt [1])) = Some (TickOp opB [] Pending)"
    by (simp add: waitState0_def runAt_def elemAt_def)
  have h6: "fn (info (TickOp opB [] Pending)) = Some (Rejected (ErrorObj ''Error'' ''boom''))"
    by (simp add: opB_def)
  have h7: "failingSerializer (ErrorObj ''Error'' ''boom'') = Inl (ErrorObj ''TypeError'' ''cannot serialize'')"
    by (simp add: failingSerializer_def)
  from serialization_failure_falls_back
    [where ser = failingSerializer and post = "[]", OF h1 wait_loop0 h3 h4 h5 h6 h7]
  show ?thesis using h1 wait_loop0 h3 h4 h5 h6 h7 by simp
qed

text \<open>
  Claim C7. The loop reaches a record with no run flag and no value, the first record of
  the op stack for its node. Then the promise of the node, pending until then, is
  rejected with the \<open>error\<close> of the record as it is, and the continuations of the next
  tick see it rejected. When that error is what \<open>runFn\<close> returned for the step when
  its thunk was selected and threw \<open>err\<close>, and the serializer keeps the message, the
  rejection has the message of \<open>err\<close>.
\<close>

theorem error_record_rejects:
  assumes "fst (call F d) \<noteq> []"
    and "loop F pre (startFn F d) = Inr st" and "userFnToRun st = None"
    and "\<not> run r" and "data r = Undefined"
    and "nodeAt (allFoundOps st) (opPosition r) = Some c"
    and "opPosition r \<notin> opPosition ` set pre"
    and "\<And>e s. ser e = Inr s \<Longrightarrow> message s = message e"
  shows "\<exists>st1. processOp r st = Inr (False, st1) \<and>
           loop F (pre @ [r]) (startFn F d) = Inr (nextTick F st1) \<and>
           nodeAt (allFoundOps st1) (opPosition r) =
             Some (TickOp (info c) (tickOps c) (Rejected (error r))) \<and>
           (\<forall>err. fn (info c) = Some (Rejected err) \<and> ser err = Inr (error r) \<longrightarrow>
              snd (runFn F ser d (pre @ [runAt (opPosition r)])) =
                Fulfilled (MultiRun \<lparr>res_data = None, res_error = Some (error r)\<rparr>) \<and>
              message (error r) = message err)"
proof -
  let ?p = "opPosition r"
  let ?st0 = "nextTick F (startFn F d)"
  let ?st1 = "st\<lparr>allFoundOps := updateAt (settle (Rejected (error r))) ?p (allFoundOps st),
                 tickOpsRef := ?p\<rparr>"
  have ne: "?p \<noteq> []" using assms(6) by (cases ?p) auto
  have rp: "replay F ?st0 pre = Inr st" using assms(2) by (simp add: loop_start startFn_pos)
  have w0: "wellVisited {} ?st0" by (rule wellVisited_nextTick [OF wellVisited_startFn])
  from replay_visits [OF rp assms(3) w0] have "wellVisited (opPosition ` set pre) st" by simp
  with assms(6,7) have pend: "settled c = Pending" unfolding wellVisited_def by auto
  have p: "processOp r st = Inr (False, ?st1)"
    using assms(3-6) ne by (simp add: processOp_eq)
  have l: "loop F (pre @ [r]) (startFn F d) = Inr (nextTick F ?st1)"
    using loop_reaches [OF assms(2,3), of r "[]"] p by simp
  have n: "nodeAt (allFoundOps ?st1) ?p = Some (TickOp (info c) (tickOps c) (Rejected (error r)))"
    using assms(6) pend by (simp add: nodeAt_updateAt_same settle_def)
  have rt: "snd (runFn F ser d (pre @ [runAt ?p])) =
                Fulfilled (MultiRun \<lparr>res_data = None, res_error = Some (error r)\<rparr>) \<and>
              message (error r) = message err"
    if "fn (info c) = Some (Rejected err)" "ser err = Inr (error r)" for err
  proof -
    have "runFn F ser d (pre @ runAt ?p # []) = runUserFn ser (Rejected err)"
      by (rule runFn_selects [where st = st and c = c])
         (use assms that in \<open>simp_all add: startFn_hasUsedTools runAt_def\<close>)
    with that assms(8) [OF that(2)] show ?thesis by (simp add: runUserFn_def)
  qed
  from p l n rt show ?thesis by blast
qed

theorem error_record_rejects_witness:
  "fst (call chainFn Null) \<noteq> [] \<and>
   loop chainFn [dataAt [0] (Num 1)] (startFn chainFn Null) = Inr chainState1 \<and>
   userFnToRun chainState1 = None \<and>
   \<not> run (errorAt [0, 0] (Obj [(''name'', Str ''Error''), (''message'', Str ''boom'')])) \<and>
   data (errorAt [0, 0] (Obj [(''name'', Str ''Error''), (''message'', Str ''boom'')])) = Undefined \<and>
   nodeAt (allFoundOps chainState1) [0, 0] = Some (TickOp opB [] Pending) \<and>
   [0, 0] \<notin> opPosition ` set [dataAt [0] (Num 1)] \<and>
   fn opB = Some (Rejected (ErrorObj ''Error'' ''boom'')) \<and>
   exampleSerializer (ErrorObj ''Error'' ''boom'') =
     Inr (Obj [(''name'', Str ''Error''), (''message'', Str ''boom'')]) \<and>
   snd (runFn chainFn exampleSerializer Null ([dataAt [0] (Num 1)] @ [runAt [0, 0]])) =
     Fulfilled (MultiRun \<lparr>res_data = None,
       res_error = Some (Obj [(''name'', Str ''Error''), (''message'', Str ''boom'')])\<rparr>) \<and>
   message (Obj [(''name'', Str ''Error''), (''message'', Str ''boom'')]) =
     message (ErrorObj ''Error'' ''boom'') \<and>
   nodeAt
     (allFoundOps
        (chainState1\<lparr>allFoundOps :=
           updateAt (settle (Rejected (Obj [(''name'', Str ''Error''), (''message'', Str ''boom'')])))
             [0, 0] (allFoundOps chainState1),
           tickOpsRef := [0, 0]\<rparr>)) [0, 0] =
     Some (TickOp opB [] (Rejected (Obj [(''name'', Str ''Error''), (''message'', Str ''boom'')])))"
proof -
  let ?s = "Obj [(''name'', Str ''Error''), (''message'', Str ''boom'')]"
  let ?r = "errorAt [0, 0] ?s"
  have h1: "fst (call chainFn Null) \<noteq> []" by (simp add: chainFn_def)
  have h3: "userFnToRun chainState1 = None" by (simp add: chainState1_def)
  have h4: "\<not> run ?r" by (simp add: errorAt_def)
  have h5: "data ?r = Undefined" by (simp add: errorAt_def)
  have h6: "nodeAt (allFoundOps chainState1) (opPosition ?r) = Some (TickOp opB [] Pending)"
    by (simp add: chainState1_def errorAt_def elemAt_def)
  have h7: "opPosition ?r \<notin> opPosition ` set [dataAt [0] (Num 1)]"
    by (simp add: errorAt_def dataAt_def)
  have h8: "message s = message e" if "exampleSerializer e = Inr s" for e s
    using that by (cases e) (auto simp: exampleSerializer_def message_def)
  have h9: "fn opB = Some (Rejected (ErrorObj ''Error'' ''boom''))" by (simp add: opB_def)
  have h10: "exampleSerializer (ErrorObj ''Error'' ''boom'') = Inr ?s"
    by (simp add: exampleSerializer_def)
  from error_record_rejects
    [where ser = exampleSerializer, OF h1 chain_loop1 h3 h4 h5 h6 h7 h8]
  obtain st1 where
    a: "processOp ?r chainState1 = Inr (False, st1)"
    and b: "nodeAt (allFoundOps st1) (opPosition ?r) =
             Some (TickOp (info (TickOp opB [] Pending)) (tickOps (TickOp opB [] Pending)) (Rejected (error ?r)))"
    and c: "\<forall>err. fn (info (TickOp opB [] Pending)) = Some (Rejected err) \<and>
              exampleSerializer err = Inr (error ?r) \<longrightarrow>
              snd (runFn chainFn exampleSerializer Null ([dataAt [0] (Num 1)] @ [runAt (opPosition ?r)])) =
                Fulfilled (MultiRun \<lparr>res_data = None, res_error = Some (error ?r)\<rparr>) \<and>
              message (error ?r) = message err"
    by blast
  have st1: "st1 = chainState1\<lparr>allFoundOps :=
           updateAt (settle (Rejected ?s)) [0, 0] (allFoundOps chainState1),
           tickOpsRef := [0, 0]\<rparr>"
    using processOp_False [OF a] by (auto simp: errorAt_def)
  from c h9 h10 have c': "snd (runFn chainFn exampleSerializer Null ([dataAt [0] (Num 1)] @ [runAt [0, 0]])) =
                Fulfilled (MultiRun \<lparr>res_data = None, res_error = Some ?s\<rparr>) \<and>
              message ?s = message (ErrorObj ''Error'' ''boom'')"
    by (simp add: errorAt_def)
  from b st1 have b': "nodeAt
     (allFoundOps
        (chainState1\<lparr>allFoundOps :=
           updateAt (settle (Rejected ?s)) [0, 0] (allFoundOps chainState1),
           tickOpsRef := [0, 0]\<rparr>)) [0, 0] = Some (TickOp opB [] (Rejected ?s))"
    by (simp add: errorAt_def)
  show ?thesis
    using h1 chain_loop1 h3 h4 h5 h6 h7 h9 h10 b' c'
    by (simp add: errorAt_def dataAt_def)
qed

text \<open>
  Claim C9. Only the synchronous prefix decides. When no step tool is called in it,
  \<open>runFn\<close> gives what awaiting the function gives, as \<open>"single"\<close>, and the op stack is
  ignored, also when a tool is called after the first suspension. When a step tool is
  called in it, the result is never \<open>"single"\<close>.
\<close>

theorem single_decided_by_synchronous_prefix:
  "(fst (call F d) = [] \<longrightarrow>
      runFn F ser d h =
        ([], case awaited F (snd (call F d)) of
               Pending \<Rightarrow> Pending
             | Fulfilled v \<Rightarrow> Fulfilled (Single v)
             | Rejected e \<Rightarrow> Rejected e) \<and>
      runFn F ser d h = runFn F ser d []) \<and>
   (fst (call F d) \<noteq> [] \<longrightarrow> (\<forall>v. snd (runFn F ser d h) \<noteq> Fulfilled (Single v)))"
proof -
  have a: "fst (call F d) = [] \<Longrightarrow> runFn F ser d h' =
        ([], case awaited F (snd (call F d)) of
               Pending \<Rightarrow> Pending
             | Fulfilled v \<Rightarrow> Fulfilled (Single v)
             | Rejected e \<Rightarrow> Rejected e)" for h'
    by (simp add: runFn_def startFn_hasUsedTools startFn_ufn)
  have b: "fst (call F d) \<noteq> [] \<Longrightarrow> snd (runFn F ser d h) \<noteq> Fulfilled (Single v)" for v
    by (auto simp: runFn_def startFn_hasUsedTools runUserFn_def
        split: sum.splits option.splits promise.splits)
  show ?thesis using a b by simp
qed

theorem single_decided_by_synchronous_prefix_witness:
  "fst (call lateFn Null) = [] \<and>
   fst (microtasks lateFn [] (snd (call lateFn Null))) = [opA] \<and>
   runFn lateFn exampleSerializer Null [runAt [0]] = ([], Fulfilled (Single (Num 7))) \<and>
   runFn lateFn exampleSerializer Null [runAt [0]] = runFn lateFn exampleSerializer Null [] \<and>
   fst (call chainFn Null) \<noteq> [] \<and>
   snd (runFn chainFn exampleSerializer Null [runAt [0]]) \<noteq> Fulfilled (Single (Num 1))"
proof -
  have h1: "fst (call lateFn Null) = []" by (simp add: lateFn_def)
  have h2: "fst (microtasks lateFn [] (snd (call lateFn Null))) = [opA]" by (simp add: lateFn_def)
  have h3: "awaited lateFn (snd (call lateFn Null)) = Fulfilled (Num 7)" by (simp add: lateFn_def)
  have h4: "fst (call chainFn Null) \<noteq> []" by (simp add: chainFn_def)
  show ?thesis
    using single_decided_by_synchronous_prefix [of lateFn Null exampleSerializer "[runAt [0]]"]
      single_decided_by_synchronous_prefix [of chainFn Null exampleSerializer "[runAt [0]]"]
      h1 h2 h3 h4
    by auto
qed

text \<open>
  Claim C10. When the selected thunk resolves with \<open>v\<close>, \<open>runFn\<close> returns
  \<open>"multi-run"\<close> with \<open>{ data: null }\<close> if \<open>v\<close> is \<open>undefined\<close> and with
  \<open>{ data: v }\<close> otherwise.
\<close>

theorem undefined_result_is_null:
  assumes "fst (call F d) \<noteq> []"
    and "loop F pre (startFn F d) = Inr st" and "userFnToRun st = None"
    and "run r" and "nodeAt (allFoundOps st) (opPosition r) = Some c"
    and "fn (info c) = Some (Fulfilled v)"
  shows "runFn F ser d (pre @ r # post) =
     ([], Fulfilled (MultiRun \<lparr>res_data = Some (if v = Undefined then Null else v),
                               res_error = None\<rparr>))"
  using runFn_selects [of F d pre st r c "Fulfilled v" ser post] assms
  by (simp add: startFn_hasUsedTools runUserFn_def)

theorem undefined_result_is_null_witness:
  "fst (call voidFn Null) \<noteq> [] \<and>
   loop voidFn [] (startFn voidFn Null) = Inr voidState0 \<and>
   userFnToRun voidState0 = None \<and>
   run (runAt [0]) \<and>
   nodeAt (allFoundOps voidState0) (opPosition (runAt [0])) = Some (TickOp opV [] Pending) \<and>
   fn (info (TickOp opV [] Pending)) = Some (Fulfilled Undefined) \<and>
   runFn voidFn exampleSerializer Null ([] @ runAt [0] # []) =
     ([], Fulfilled (MultiRun \<lparr>res_data = Some Null, res_error = None\<rparr>))"
proof -
  have h1: "fst (call voidFn Null) \<noteq> []" by (simp add: voidFn_def)
  have h3: "userFnToRun voidState0 = None" by (simp add: voidState0_def)
  have h4: "run (runAt [0])" by (simp add: runAt_def)
  have h5: "nodeAt (allFoundOps voidState0) (opPosition (runAt [0])) = Some (TickOp opV [] Pending)"
    by (simp add: voidState0_def runAt_def elemAt_def)
  have h6: "fn (info (TickOp opV [] Pending)) = Some (Fulfilled Undefined)"
    by (simp add: opV_def)
  from undefined_result_is_null [OF h1 void_loop0 h3 h4 h5 h6, of exampleSerializer "[]"]
  show ?thesis using h1 void_loop0 h3 h4 h5 h6 by simp
qed

end
